theory Spec2Isabelle
  imports Main "HOL-Library.Word" "HOL-Library.Signed_Division"
begin

unbundle bit_operations_syntax

section \<open>Go integers\<close>

text \<open>
  The package computes on Go's \<open>int\<close>, which is 64 bits wide on the 64-bit targets;
  this development fixes that width. Addition, subtraction and multiplication wrap
  around, \<open>/\<close> truncates towards zero, and the comparisons read a value as two's
  complement. The package divides by the constants 2 and 4 only, so the panic of a
  division by zero has no branch here.
\<close>

type_synonym go_int = "64 word"

definition go_div :: "go_int \<Rightarrow> go_int \<Rightarrow> go_int" where
  "go_div a b = word_of_int (sint a sdiv sint b)"

section \<open>The shared transform\<close>

text \<open>
  \<open>rot\<close> of hilbert.go, lines 61 to 69. The two pointers always address the two distinct
  locals \<open>x\<close> and \<open>y\<close> of the caller, so the pair goes in and the updated pair comes out.
\<close>

definition rot :: "go_int \<Rightarrow> go_int \<Rightarrow> go_int \<Rightarrow> go_int \<times> go_int \<Rightarrow> go_int \<times> go_int" where
  "rot n rx ry p =
     (if ry = 0
      then (let q = (if rx = 1 then (n - 1 - fst p, n - 1 - snd p) else p)
            in (snd q, fst q))
      else p)"

section \<open>Coordinates to distance\<close>

text \<open>
  The loop of \<open>XYToD\<close> (hilbert.go, lines 18 to 28) with its state \<open>s\<close>, \<open>x\<close>, \<open>y\<close>, \<open>d\<close>.
  A run that never leaves the loop is the value \<open>None\<close>. The named result \<open>d\<close> starts
  at 0 and the loop starts at \<open>s = n / 2\<close>.
\<close>

partial_function (option) XYToD_loop :: "go_int \<Rightarrow> go_int \<Rightarrow> go_int \<Rightarrow> go_int \<Rightarrow> go_int option" where
  "XYToD_loop s x y d =
     (if 0 <s s
      then (let rx = (if 0 <s x AND s then 1 else 0);
                ry = (if 0 <s y AND s then 1 else 0);
                d' = d + s * s * ((3 * rx) XOR ry);
                p = rot s rx ry (x, y)
            in XYToD_loop (go_div s 2) (fst p) (snd p) d')
      else Some d)"

declare XYToD_loop.simps [code]

definition XYToD :: "go_int \<Rightarrow> go_int \<Rightarrow> go_int \<Rightarrow> go_int option" where
  "XYToD n x y = XYToD_loop (go_div n 2) x y 0"

section \<open>Distance to coordinates\<close>

text \<open>
  The loop of \<open>DToXY\<close> (hilbert.go, lines 50 to 57) with its state \<open>s\<close>, \<open>x\<close>, \<open>y\<close>, \<open>t\<close>;
  \<open>n\<close> is the bound of the loop condition. The named results \<open>x\<close> and \<open>y\<close> start at 0,
  \<open>t\<close> starts at \<open>d\<close> and the loop starts at \<open>s = 1\<close>.
\<close>

partial_function (option) DToXY_loop :: "go_int \<Rightarrow> go_int \<Rightarrow> go_int \<Rightarrow> go_int \<Rightarrow> go_int \<Rightarrow> (go_int \<times> go_int) option" where
  "DToXY_loop n s x y t =
     (if s <s n
      then (let rx = 1 AND go_div t 2;
                ry = 1 AND (t XOR rx);
                p = rot s rx ry (x, y);
                x' = fst p + s * rx;
                y' = snd p + s * ry
            in DToXY_loop n (s * 2) x' y' (go_div t 4))
      else Some (x, y))"

declare DToXY_loop.simps [code]

definition DToXY :: "go_int \<Rightarrow> go_int \<Rightarrow> (go_int \<times> go_int) option" where
  "DToXY n d = DToXY_loop n 1 0 0 d"

section \<open>The curve by recursion on its order\<close>

text \<open>
  The two loops walk the base-four digits of the distance and the bits of the
  coordinates. The functions below describe the same curve on natural numbers by
  recursion on the order \<open>j\<close> of the grid (side \<open>2 ^ j\<close>); they carry the loop
  invariants and the arithmetic of the proofs. \<open>nrot\<close> is \<open>rot\<close> on a cell of the
  square of side \<open>s\<close>, \<open>place\<close> is one pass of the loop of \<open>DToXY\<close> for the digit \<open>t\<close>,
  \<open>quad\<close> is the digit \<open>(3 * rx) XOR ry\<close> of a quadrant and \<open>hbit j x\<close> is bit \<open>j\<close> of \<open>x\<close>.
\<close>

definition nrot :: "nat \<Rightarrow> nat \<Rightarrow> nat \<Rightarrow> nat \<times> nat \<Rightarrow> nat \<times> nat" where
  "nrot s rx ry p =
     (if ry = 0
      then (if rx = 1 then (s - 1 - snd p, s - 1 - fst p) else (snd p, fst p))
      else p)"

definition put :: "nat \<Rightarrow> nat \<Rightarrow> nat \<Rightarrow> nat \<times> nat \<Rightarrow> nat \<times> nat" where
  "put s rx ry p = (fst (nrot s rx ry p) + s * rx, snd (nrot s rx ry p) + s * ry)"

definition place :: "nat \<Rightarrow> nat \<Rightarrow> nat \<times> nat \<Rightarrow> nat \<times> nat" where
  "place s t p = put s ((t div 2) mod 2) ((t + (t div 2) mod 2) mod 2) p"

fun d2xy :: "nat \<Rightarrow> nat \<Rightarrow> nat \<times> nat" where
  "d2xy 0 d = (0, 0)"
| "d2xy (Suc j) d = place (2 ^ j) (d div 4 ^ j) (d2xy j d)"

definition quad :: "nat \<Rightarrow> nat \<Rightarrow> nat" where
  "quad rx ry = (if rx = 1 then 3 - ry else ry)"

definition hbit :: "nat \<Rightarrow> nat \<Rightarrow> nat" where
  "hbit j x = (x div 2 ^ j) mod 2"

fun xy2d :: "nat \<Rightarrow> nat \<times> nat \<Rightarrow> nat" where
  "xy2d 0 p = 0"
| "xy2d (Suc j) p =
     4 ^ j * quad (hbit j (fst p)) (hbit j (snd p))
     + xy2d j (nrot (2 ^ j) (hbit j (fst p)) (hbit j (snd p)) (fst p mod 2 ^ j, snd p mod 2 ^ j))"

definition adjacent :: "nat \<times> nat \<Rightarrow> nat \<times> nat \<Rightarrow> bool" where
  "adjacent p q \<longleftrightarrow>
     (fst p = fst q \<and> (snd q = Suc (snd p) \<or> snd p = Suc (snd q)))
     \<or> (snd p = snd q \<and> (fst q = Suc (fst p) \<or> fst p = Suc (fst q)))"

text \<open>A pair of natural numbers read as a pair of Go integers.\<close>

definition wp :: "nat \<times> nat \<Rightarrow> go_int \<times> go_int" where
  "wp p = (of_nat (fst p), of_nat (snd p))"

section \<open>Arithmetic of the curve\<close>

lemma nrot_bound:
  "fst p < s \<Longrightarrow> snd p < s \<Longrightarrow> fst (nrot s rx ry p) < s \<and> snd (nrot s rx ry p) < s"
  by (auto simp: nrot_def)

lemma nrot_invol:
  "fst p < s \<Longrightarrow> snd p < s \<Longrightarrow> nrot s rx ry (nrot s rx ry p) = p"
  by (auto simp: nrot_def)

lemma add_bit_bound: "a < s \<Longrightarrow> b < 2 \<Longrightarrow> a + s * b < 2 * (s::nat)"
  by (cases "b = 0") (auto simp: less_2_cases_iff)

lemma put_bound:
  assumes "fst p < s" "snd p < s" "rx < 2" "ry < 2"
  shows "fst (put s rx ry p) < 2 * s \<and> snd (put s rx ry p) < 2 * s"
proof -
  have b: "fst (nrot s rx ry p) < s \<and> snd (nrot s rx ry p) < s"
    using assms(1,2) by (rule nrot_bound)
  have "fst (nrot s rx ry p) + s * rx < 2 * s"
    by (rule add_bit_bound) (use b assms in simp_all)
  moreover have "snd (nrot s rx ry p) + s * ry < 2 * s"
    by (rule add_bit_bound) (use b assms in simp_all)
  ultimately show ?thesis by (simp only: put_def fst_conv snd_conv)
qed

lemma place_bound:
  "fst p < s \<Longrightarrow> snd p < s \<Longrightarrow> fst (place s t p) < 2 * s \<and> snd (place s t p) < 2 * s"
  unfolding place_def by (rule put_bound) simp_all

lemma d2xy_bound: "fst (d2xy j d) < 2 ^ j \<and> snd (d2xy j d) < 2 ^ j"
proof (induction j)
  case 0
  show ?case by simp
next
  case (Suc j)
  then show ?case using place_bound [of "d2xy j d" "2 ^ j" "d div 4 ^ j"] by simp
qed

lemma mod4_div2: "(t mod 4) div 2 = (t div 2) mod (2::nat)"
proof -
  have "t mod (2 * 2) = 2 * (t div 2 mod 2) + t mod 2" by (rule mod_mult2_eq)
  then show ?thesis by simp
qed

lemma mod4_parity: "(t mod 4 + r) mod 2 = (t + r) mod (2::nat)"
proof -
  have "(t mod 4) mod 2 = t mod 2" by (simp add: mod_mod_cancel)
  then show ?thesis by (metis mod_add_left_eq)
qed

lemma place_mod4: "place s (t mod 4) p = place s t p"
proof -
  have a: "(t mod 4 div 2) mod 2 = (t div 2) mod 2"
    by (simp only: mod4_div2 mod_mod_trivial)
  have b: "(t mod 4 + (t div 2) mod 2) mod 2 = (t + (t div 2) mod 2) mod 2"
    by (rule mod4_parity)
  show ?thesis unfolding place_def a b ..
qed

lemma div_mod_pow4:
  assumes "j < m"
  shows "(d mod 4 ^ m) div 4 ^ j mod 4 = d div 4 ^ j mod (4::nat)"
proof -
  from assms obtain r where m: "m = Suc j + r" using less_iff_Suc_add by auto
  have e: "(4::nat) ^ m = 4 ^ j * (4 * 4 ^ r)" by (simp add: m power_add)
  have "(d mod 4 ^ m) div 4 ^ j = (d div 4 ^ j) mod (4 * 4 ^ r)"
    unfolding e mod_mult2_eq by simp
  then show ?thesis by (simp add: mod_mod_cancel)
qed

lemma d2xy_mod: "j \<le> m \<Longrightarrow> d2xy j (d mod 4 ^ m) = d2xy j d"
proof (induction j)
  case 0
  show ?case by simp
next
  case (Suc j)
  then have ih: "d2xy j (d mod 4 ^ m) = d2xy j d" by simp
  from Suc.prems have "j < m" by simp
  then have "(d mod 4 ^ m) div 4 ^ j mod 4 = d div 4 ^ j mod 4" by (rule div_mod_pow4)
  then have "place (2 ^ j) ((d mod 4 ^ m) div 4 ^ j) p = place (2 ^ j) (d div 4 ^ j) p" for p
    using place_mod4 [of "2 ^ j" "(d mod 4 ^ m) div 4 ^ j" p] place_mod4 [of "2 ^ j" "d div 4 ^ j" p]
    by simp
  then show ?case by (simp add: ih)
qed

lemma quad_bound: "rx < 2 \<Longrightarrow> ry < 2 \<Longrightarrow> quad rx ry < 4"
  by (auto simp: quad_def)

lemma place_quad: "rx < 2 \<Longrightarrow> ry < 2 \<Longrightarrow> place s (quad rx ry) p = put s rx ry p"
  by (auto simp: place_def quad_def less_2_cases_iff)

lemma quad_place_bits: "t < 4 \<Longrightarrow> quad ((t div 2) mod 2) ((t + (t div 2) mod 2) mod 2) = t"
proof -
  assume "t < 4"
  then have "t = 0 \<or> t = 1 \<or> t = 2 \<or> t = 3" by arith
  then show ?thesis by (auto simp: quad_def)
qed

lemma hbit_less2: "hbit j x < 2"
  by (simp add: hbit_def)

lemma digit_bound:
  assumes "q < 4" "r < m"
  shows "m * q + r < 4 * (m::nat)"
proof -
  from assms(1) have "q \<le> 3" by simp
  then have "m * q \<le> m * 3" by (rule mult_le_mono2)
  with assms(2) show ?thesis by linarith
qed

lemma xy2d_bound: "xy2d j p < 4 ^ j"
proof (induction j arbitrary: p)
  case 0
  show ?case by simp
next
  case (Suc j)
  let ?rx = "hbit j (fst p)" and ?ry = "hbit j (snd p)"
  let ?p = "nrot (2 ^ j) ?rx ?ry (fst p mod 2 ^ j, snd p mod 2 ^ j)"
  have "quad ?rx ?ry < 4" by (rule quad_bound) (rule hbit_less2)+
  moreover have "xy2d j ?p < 4 ^ j" by (rule Suc.IH)
  ultimately have "4 ^ j * quad ?rx ?ry + xy2d j ?p < 4 * 4 ^ j" by (rule digit_bound)
  then show ?case by simp
qed

lemma xy2d_mod: "xy2d j (fst p mod 2 ^ j, snd p mod 2 ^ j) = xy2d j p"
proof (cases j)
  case 0
  then show ?thesis by simp
next
  case (Suc i)
  have h: "hbit i (x mod 2 ^ Suc i) = hbit i x" for x
  proof -
    have "x mod (2 ^ i * 2) = 2 ^ i * (x div 2 ^ i mod 2) + x mod 2 ^ i" by (rule mod_mult2_eq)
    then show ?thesis by (simp add: hbit_def mult.commute)
  qed
  have m: "x mod 2 ^ Suc i mod 2 ^ i = x mod 2 ^ i" for x :: nat
    by (simp add: mod_mod_cancel)
  show ?thesis unfolding Suc xy2d.simps fst_conv snd_conv h m ..
qed

lemma hbit_split: "x < 2 ^ Suc j \<Longrightarrow> x mod 2 ^ j + 2 ^ j * hbit j x = x"
proof -
  assume "x < 2 ^ Suc j"
  then have "x div 2 ^ j < 2" by (simp add: less_mult_imp_div_less mult.commute)
  then have "hbit j x = x div 2 ^ j" by (simp add: hbit_def)
  then show ?thesis by (simp add: add.commute)
qed

lemma hbit_join: "a < 2 ^ j \<Longrightarrow> b < 2 \<Longrightarrow> hbit j (a + 2 ^ j * b) = b \<and> (a + 2 ^ j * b) mod 2 ^ j = a"
  by (simp add: hbit_def)

lemma digit_div: "r < m \<Longrightarrow> (m * q + r) div m = (q::nat) \<and> (m * q + r) mod m = r"
  by simp

lemma d2xy_xy2d:
  "fst p < 2 ^ j \<Longrightarrow> snd p < 2 ^ j \<Longrightarrow> d2xy j (xy2d j p) = p"
proof (induction j arbitrary: p)
  case 0
  then show ?case by (simp add: prod_eq_iff)
next
  case (Suc j)
  let ?rx = "hbit j (fst p)" and ?ry = "hbit j (snd p)"
  let ?l = "(fst p mod 2 ^ j, snd p mod 2 ^ j)"
  let ?r = "nrot (2 ^ j) ?rx ?ry ?l"
  let ?D = "4 ^ j * quad ?rx ?ry + xy2d j ?r"
  have lb: "fst ?l < 2 ^ j" "snd ?l < 2 ^ j" by simp_all
  then have rb: "fst ?r < 2 ^ j \<and> snd ?r < 2 ^ j" by (rule nrot_bound)
  have small: "xy2d j ?r < 4 ^ j" by (rule xy2d_bound)
  have dv: "?D div 4 ^ j = quad ?rx ?ry" and md: "?D mod 4 ^ j = xy2d j ?r"
    using digit_div [OF small, of "quad ?rx ?ry"] by simp_all
  have "d2xy j ?D = d2xy j (?D mod 4 ^ j)" by (rule d2xy_mod [symmetric]) simp
  also have "\<dots> = ?r" unfolding md using rb by (intro Suc.IH) simp_all
  finally have low: "d2xy j ?D = ?r" .
  have "d2xy (Suc j) (xy2d (Suc j) p) = place (2 ^ j) (quad ?rx ?ry) ?r"
    by (simp only: xy2d.simps d2xy.simps dv low)
  also have "\<dots> = put (2 ^ j) ?rx ?ry ?r" by (rule place_quad) (rule hbit_less2)+
  also have "\<dots> = (fst ?l + 2 ^ j * ?rx, snd ?l + 2 ^ j * ?ry)"
    unfolding put_def nrot_invol [OF lb] ..
  also have "\<dots> = p"
    using hbit_split [OF Suc.prems(1)] hbit_split [OF Suc.prems(2)] by (simp add: prod_eq_iff)
  finally show ?case .
qed

lemma xy2d_d2xy: "d < 4 ^ j \<Longrightarrow> xy2d j (d2xy j d) = d"
proof (induction j arbitrary: d)
  case 0
  then show ?case by simp
next
  case (Suc j)
  let ?t = "d div 4 ^ j"
  let ?rx = "(?t div 2) mod 2" and ?ry = "(?t + (?t div 2) mod 2) mod 2"
  let ?P = "d2xy j d"
  let ?r = "nrot (2 ^ j) ?rx ?ry ?P"
  have t4: "?t < 4" using Suc.prems by (simp add: less_mult_imp_div_less mult.commute)
  have Pb: "fst ?P < 2 ^ j" "snd ?P < 2 ^ j" using d2xy_bound [of j d] by simp_all
  then have rb: "fst ?r < 2 ^ j \<and> snd ?r < 2 ^ j" by (rule nrot_bound)
  have bits: "?rx < 2" "?ry < 2" by simp_all
  have e: "d2xy (Suc j) d = (fst ?r + 2 ^ j * ?rx, snd ?r + 2 ^ j * ?ry)"
    by (simp only: d2xy.simps place_def put_def)
  have hx: "hbit j (fst ?r + 2 ^ j * ?rx) = ?rx \<and> (fst ?r + 2 ^ j * ?rx) mod 2 ^ j = fst ?r"
    by (rule hbit_join) (use rb in simp_all)
  have hy: "hbit j (snd ?r + 2 ^ j * ?ry) = ?ry \<and> (snd ?r + 2 ^ j * ?ry) mod 2 ^ j = snd ?r"
    by (rule hbit_join) (use rb in simp_all)
  have "xy2d (Suc j) (d2xy (Suc j) d) = 4 ^ j * quad ?rx ?ry + xy2d j (nrot (2 ^ j) ?rx ?ry ?r)"
    unfolding e xy2d.simps fst_conv snd_conv using hx hy by simp
  also have "nrot (2 ^ j) ?rx ?ry ?r = ?P" by (rule nrot_invol [OF Pb])
  also have "quad ?rx ?ry = ?t" by (rule quad_place_bits [OF t4])
  also have "xy2d j ?P = d mod 4 ^ j"
  proof -
    have "d2xy j d = d2xy j (d mod 4 ^ j)" by (rule d2xy_mod [symmetric]) simp
    then show ?thesis using Suc.IH [of "d mod 4 ^ j"] by simp
  qed
  finally show ?case by simp
qed

lemma d2xy_first: "d2xy j 0 = (0, 0)"
  by (induction j) (simp_all add: place_def put_def nrot_def)

lemma d2xy_last: "d2xy j (4 ^ j - 1) = (2 ^ j - 1, 0)"
proof (induction j)
  case 0
  show ?case by simp
next
  case (Suc j)
  have p: "(4::nat) ^ j \<ge> 1" by simp
  have e: "(4::nat) ^ Suc j - 1 = 4 ^ j * 3 + (4 ^ j - 1)" using p by simp
  have small: "(4::nat) ^ j - 1 < 4 ^ j" by simp
  have dv: "(4 ^ Suc j - 1) div 4 ^ j = (3::nat)" and md: "(4 ^ Suc j - 1) mod 4 ^ j = (4::nat) ^ j - 1"
    unfolding e using digit_div [OF small, of 3] by simp_all
  have "d2xy j (4 ^ Suc j - 1) = d2xy j ((4 ^ Suc j - 1) mod 4 ^ j)"
    by (rule d2xy_mod [symmetric]) simp
  then have low: "d2xy j (4 ^ Suc j - 1) = (2 ^ j - 1, 0)" unfolding md Suc.IH .
  have "d2xy (Suc j) (4 ^ Suc j - 1) = place (2 ^ j) 3 (2 ^ j - 1, 0)"
    by (simp only: d2xy.simps dv low)
  also have "\<dots> = (2 ^ Suc j - 1, 0)"
    by (simp add: place_def put_def nrot_def)
  finally show ?case .
qed

lemma nrot_adjacent:
  assumes "adjacent p q" "fst p < s" "snd p < s" "fst q < s" "snd q < s"
  shows "adjacent (nrot s rx ry p) (nrot s rx ry q)"
  using assms by (auto simp: adjacent_def nrot_def)

lemma put_adjacent:
  assumes "adjacent p q" "fst p < s" "snd p < s" "fst q < s" "snd q < s"
  shows "adjacent (put s rx ry p) (put s rx ry q)"
proof -
  have "adjacent (nrot s rx ry p) (nrot s rx ry q)" using assms by (rule nrot_adjacent)
  then show ?thesis by (simp add: adjacent_def put_def)
qed

lemma place_digits:
  "place s 0 p = put s 0 0 p" "place s 1 p = put s 0 1 p"
  "place s 2 p = put s 1 1 p" "place s 3 p = put s 1 0 p"
  by (simp_all add: place_def)

lemma place_cross:
  assumes "t < 3" "0 < s"
  shows "adjacent (place s t (s - 1, 0)) (place s (Suc t) (0, 0))"
proof -
  have c0: "adjacent (place s 0 (s - 1, 0)) (place s 1 (0, 0))"
    unfolding place_digits using assms(2) by (simp add: put_def nrot_def adjacent_def)
  have c1: "adjacent (place s 1 (s - 1, 0)) (place s 2 (0, 0))"
    unfolding place_digits using assms(2) by (simp add: put_def nrot_def adjacent_def)
  have c2: "adjacent (place s 2 (s - 1, 0)) (place s 3 (0, 0))"
    unfolding place_digits using assms(2) by (simp add: put_def nrot_def adjacent_def)
  from assms(1) consider "t = 0" | "t = 1" | "t = 2" by linarith
  then show ?thesis
  proof cases
    case 1
    then show ?thesis using c0 by simp
  next
    case 2
    have "Suc 1 = 2" by simp
    then show ?thesis using c1 2 by metis
  next
    case 3
    have "Suc 2 = 3" by simp
    then show ?thesis using c2 3 by metis
  qed
qed

lemma d2xy_adjacent: "Suc d < 4 ^ j \<Longrightarrow> adjacent (d2xy j d) (d2xy j (Suc d))"
proof (induction j arbitrary: d)
  case 0
  then show ?case by simp
next
  case (Suc j)
  let ?m = "(4::nat) ^ j"
  have lowd: "d2xy j d = d2xy j (d mod ?m)" by (rule d2xy_mod [symmetric]) simp
  have lowS: "d2xy j (Suc d) = d2xy j (Suc d mod ?m)" by (rule d2xy_mod [symmetric]) simp
  show ?case
  proof (cases "Suc d mod ?m = 0")
    case False
    then have ms: "Suc d mod ?m = Suc (d mod ?m)" and dv: "Suc d div ?m = d div ?m"
      by (simp_all add: mod_Suc div_Suc split: if_splits)
    have "Suc (d mod ?m) < ?m" using ms [symmetric] by simp
    then have "adjacent (d2xy j (d mod ?m)) (d2xy j (Suc (d mod ?m)))" by (rule Suc.IH)
    then have a: "adjacent (d2xy j d) (d2xy j (Suc d))" using lowd lowS ms by simp
    have "adjacent (place (2 ^ j) (d div ?m) (d2xy j d)) (place (2 ^ j) (d div ?m) (d2xy j (Suc d)))"
      unfolding place_def using a d2xy_bound [of j d] d2xy_bound [of j "Suc d"]
      by (intro put_adjacent) simp_all
    then show ?thesis by (simp only: d2xy.simps dv)
  next
    case True
    then have dv: "Suc d div ?m = Suc (d div ?m)" by (simp add: div_Suc)
    from True have "Suc (d mod ?m) = ?m" by (simp add: mod_Suc split: if_splits)
    then have dm: "d mod ?m = ?m - 1" by simp
    have t3: "d div ?m < 3"
    proof -
      have "Suc d div ?m < 4" using Suc.prems by (simp add: less_mult_imp_div_less mult.commute)
      then show ?thesis using dv by simp
    qed
    have l: "d2xy j d = (2 ^ j - 1, 0)" using lowd dm d2xy_last [of j] by simp
    have r: "d2xy j (Suc d) = (0, 0)" using lowS True d2xy_first [of j] by simp
    have "adjacent (place (2 ^ j) (d div ?m) (2 ^ j - 1, 0)) (place (2 ^ j) (Suc (d div ?m)) (0, 0))"
      using t3 by (rule place_cross) simp
    then show ?thesis by (simp only: d2xy.simps dv l r)
  qed
qed

lemma adjacent_dist:
  "adjacent p q \<Longrightarrow> (int (fst q) - int (fst p))\<^sup>2 + (int (snd q) - int (snd p))\<^sup>2 = 1"
  by (auto simp: adjacent_def)

section \<open>Natural numbers as Go integers\<close>

lemma sint_of_nat_small: "m < 2 ^ 63 \<Longrightarrow> sint (of_nat m :: go_int) = int m"
proof -
  assume m: "m < 2 ^ 63"
  have "signed_take_bit 63 (int m) = int m"
    by (rule signed_take_bit_int_eq_self) (use m in simp_all)
  then show ?thesis by (simp add: signed_of_nat)
qed

lemma unat_of_nat_small: "m < 2 ^ 64 \<Longrightarrow> unat (of_nat m :: go_int) = m"
  by (simp add: unat_of_nat)

lemma go_div_of_nat:
  assumes "m < 2 ^ 63" "0 < c" "c < 2 ^ 63"
  shows "go_div (of_nat m) (of_nat c) = of_nat (m div c)"
proof -
  have "int m sdiv int c = int (m div c)"
    using assms(2) by (cases "m = 0") (simp_all add: signed_divide_int_def zdiv_int)
  moreover have "sint (of_nat m :: go_int) = int m" "sint (of_nat c :: go_int) = int c"
    using assms by (simp_all only: sint_of_nat_small)
  ultimately show ?thesis
    by (simp only: go_div_def of_int_of_nat_eq)
qed

lemma go_div_2: "m < 2 ^ 63 \<Longrightarrow> go_div (of_nat m) 2 = of_nat (m div 2)"
  using go_div_of_nat [of m 2] by simp

lemma go_div_4: "m < 2 ^ 63 \<Longrightarrow> go_div (of_nat m) 4 = of_nat (m div 4)"
  using go_div_of_nat [of m 4] by simp

lemma sless_of_nat:
  "a < 2 ^ 63 \<Longrightarrow> b < 2 ^ 63 \<Longrightarrow> (of_nat a :: go_int) <s of_nat b \<longleftrightarrow> a < b"
  by (simp add: word_sless_alt sint_of_nat_small)

lemma pow2_of_nat: "(2 :: go_int) ^ j = of_nat (2 ^ j)"
  by simp

lemma pow2_small: "j \<le> 62 \<Longrightarrow> (2::nat) ^ j < 2 ^ 63"
  by (rule power_strict_increasing) simp_all

lemma one_and_of_nat: "1 AND (of_nat m :: go_int) = of_nat (m mod 2)"
  by (simp add: one_and_eq mod_2_eq_odd)

lemma one_and_xor_of_nat:
  "1 AND ((of_nat t :: go_int) XOR of_nat r) = of_nat ((t + r) mod 2)"
  by (simp add: one_and_eq mod_2_eq_odd even_xor_iff)

lemma of_nat_bit_eq:
  "b < 2 \<Longrightarrow> ((of_nat b :: go_int) = 0 \<longleftrightarrow> b = 0) \<and> ((of_nat b :: go_int) = 1 \<longleftrightarrow> b = 1)"
  by (auto simp: less_2_cases_iff)

lemma rot_of_nat:
  assumes "fst p < s" "snd p < s" "rx < 2" "ry < 2"
  shows "rot (of_nat s) (of_nat rx) (of_nat ry) (wp p) = wp (nrot s rx ry p)"
proof -
  have d: "(of_nat s :: go_int) - 1 - of_nat a = of_nat (s - 1 - a)" if "a < s" for a
    using that by (simp add: of_nat_diff)
  show ?thesis
    using assms of_nat_bit_eq [of rx] of_nat_bit_eq [of ry]
    by (simp add: rot_def nrot_def wp_def Let_def d)
qed

lemma and_pow2: "(x :: go_int) AND 2 ^ j = (if bit x j then 2 ^ j else 0)"
  by (rule bit_eqI) (auto simp: bit_simps)

lemma hbit_unat: "hbit j (unat (x :: go_int)) = (if bit x j then 1 else 0)"
proof -
  have "bit (unat x) j \<longleftrightarrow> bit x j" by (simp add: bit_simps)
  then have "odd (unat x div 2 ^ j) \<longleftrightarrow> bit x j" by (simp add: bit_iff_odd)
  then show ?thesis by (simp add: hbit_def mod_2_eq_odd)
qed

lemma sless_pow2: "j \<le> 62 \<Longrightarrow> (0 :: go_int) <s 2 ^ j"
  using sless_of_nat [of 0 "2 ^ j"] pow2_small [of j] by simp

lemma bit_test:
  assumes "j \<le> 62"
  shows "(if 0 <s (x :: go_int) AND 2 ^ j then 1 else 0) = (of_nat (hbit j (unat x)) :: go_int)"
  using sless_pow2 [OF assms] by (simp add: and_pow2 hbit_unat)

lemma quad_of_nat:
  "a < 2 \<Longrightarrow> b < 2 \<Longrightarrow> (3 * of_nat a) XOR of_nat b = (of_nat (quad a b) :: go_int)"
  by (auto simp: less_2_cases_iff quad_def)

lemma neg_mod:
  fixes a m :: int
  assumes "0 < m"
  shows "(m - 1 - a) mod m = m - 1 - a mod m"
proof -
  have "(m - 1 - a) mod m = (m - 1 - a mod m) mod m"
    by (metis mod_diff_right_eq)
  also have "\<dots> = m - 1 - a mod m"
  proof (rule mod_pos_pos_trivial)
    show "0 \<le> m - 1 - a mod m" using pos_mod_bound [OF assms, of a] by linarith
    show "m - 1 - a mod m < m" using pos_mod_sign [OF assms, of a] by linarith
  qed
  finally show ?thesis .
qed

lemma unat_reflect:
  assumes "j \<le> 62"
  shows "unat ((2 :: go_int) ^ j - 1 - y) mod 2 ^ j = 2 ^ j - 1 - unat y mod 2 ^ j"
proof -
  have dv: "(2::int) ^ j dvd 2 ^ 64" using assms by (intro le_imp_power_dvd) simp
  have "unat (of_nat (2 ^ j) :: go_int) = 2 ^ j"
  proof (rule unat_of_nat_small)
    show "(2::nat) ^ j < 2 ^ 64" using assms by (intro power_strict_increasing) simp_all
  qed
  then have u: "uint ((2 :: go_int) ^ j) = 2 ^ j"
    by (simp add: uint_nat)
  have "uint ((2 :: go_int) ^ j - 1 - y) = (2 ^ j - 1 - uint y) mod 2 ^ 64"
    by (simp add: uint_word_ariths u mod_diff_left_eq)
  then have "uint ((2 :: go_int) ^ j - 1 - y) mod 2 ^ j = (2 ^ j - 1 - uint y) mod 2 ^ j"
    using dv by (simp add: mod_mod_cancel)
  also have "\<dots> = 2 ^ j - 1 - uint y mod 2 ^ j" by (rule neg_mod) simp
  finally have i: "uint ((2 :: go_int) ^ j - 1 - y) mod 2 ^ j = 2 ^ j - 1 - uint y mod 2 ^ j" .
  have c: "int (unat w mod 2 ^ j) = uint w mod 2 ^ j" for w :: go_int
    by (simp only: uint_nat of_nat_mod of_nat_power of_nat_numeral)
  have "Suc (unat y mod 2 ^ j) \<le> 2 ^ j" by (simp add: Suc_le_eq)
  then have "int (2 ^ j - Suc (unat y mod 2 ^ j)) = 2 ^ j - 1 - uint y mod 2 ^ j"
    by (simp only: of_nat_diff c [symmetric]) simp
  then have "int (unat ((2 :: go_int) ^ j - 1 - y) mod 2 ^ j) = int (2 ^ j - 1 - unat y mod 2 ^ j)"
    using i by (simp only: c)
  then show ?thesis by (rule int_int_eq [THEN iffD1])
qed

section \<open>What the loops compute\<close>

text \<open>
  After \<open>j\<close> passes the loop of \<open>DToXY\<close> holds the cell of \<open>d\<close> on the curve of order \<open>j\<close>
  and the remaining digits of \<open>d\<close>; no operation of a pass wraps around while
  \<open>n = 2 ^ k\<close> with \<open>k \<le> 62\<close> and \<open>d \<ge> 0\<close>.
\<close>

lemma DToXY_step:
  assumes "j \<le> 61" "T < 2 ^ 63" "fst p < 2 ^ j" "snd p < 2 ^ j" "2 ^ j <s n"
  shows "DToXY_loop n (2 ^ j) (of_nat (fst p)) (of_nat (snd p)) (of_nat T)
         = DToXY_loop n (2 ^ Suc j) (of_nat (fst (place (2 ^ j) T p)))
             (of_nat (snd (place (2 ^ j) T p))) (of_nat (T div 4))"
proof -
  let ?rx = "(T div 2) mod 2" and ?ry = "(T + (T div 2) mod 2) mod 2"
  have rx: "1 AND go_div (of_nat T) 2 = (of_nat ?rx :: go_int)"
    by (simp only: go_div_2 [OF assms(2)] one_and_of_nat)
  have ry: "1 AND ((of_nat T :: go_int) XOR of_nat ?rx) = of_nat ?ry"
    by (rule one_and_xor_of_nat)
  have r: "rot (of_nat (2 ^ j)) (of_nat ?rx) (of_nat ?ry) (wp p) = wp (nrot (2 ^ j) ?rx ?ry p)"
    by (rule rot_of_nat) (use assms in simp_all)
  have t: "go_div (of_nat T) 4 = of_nat (T div 4)" by (rule go_div_4 [OF assms(2)])
  show ?thesis
    apply (subst DToXY_loop.simps)
    apply (simp only: assms(5) if_True Let_def rx ry t)
    apply (simp only: pow2_of_nat)
    apply (simp only: r [unfolded wp_def] fst_conv snd_conv place_def put_def)
    apply (simp only: of_nat_add of_nat_mult of_nat_power of_nat_numeral power_Suc mult.commute)
    done
qed

lemma DToXY_loop_d2xy:
  assumes "k \<le> 62" "d < 2 ^ 63"
  shows "j \<le> k \<Longrightarrow>
         DToXY_loop (2 ^ k) (2 ^ j) (of_nat (fst (d2xy j d))) (of_nat (snd (d2xy j d)))
           (of_nat (d div 4 ^ j)) = Some (wp (d2xy k d))"
proof (induction "k - j" arbitrary: j)
  case 0
  then have "j = k" by simp
  then show ?case by (subst DToXY_loop.simps) (simp add: wp_def)
next
  case (Suc m)
  then have jk: "j < k" and j61: "j \<le> 61" using assms(1) by simp_all
  have T: "d div 4 ^ j < 2 ^ 63" using assms(2) by (meson div_le_dividend le_less_trans)
  have lt: "(2 :: go_int) ^ j <s 2 ^ k"
    unfolding pow2_of_nat using jk assms(1) by (simp only: sless_of_nat pow2_small) simp
  have b: "fst (d2xy j d) < 2 ^ j" "snd (d2xy j d) < 2 ^ j" using d2xy_bound [of j d] by simp_all
  have "d div 4 ^ Suc j = d div (4 ^ j * 4)" by (simp only: power_Suc mult.commute)
  then have dd: "d div 4 ^ j div 4 = d div 4 ^ Suc j" by (simp only: div_mult2_eq)
  have "DToXY_loop (2 ^ k) (2 ^ j) (of_nat (fst (d2xy j d))) (of_nat (snd (d2xy j d)))
           (of_nat (d div 4 ^ j))
        = DToXY_loop (2 ^ k) (2 ^ Suc j) (of_nat (fst (d2xy (Suc j) d)))
            (of_nat (snd (d2xy (Suc j) d))) (of_nat (d div 4 ^ Suc j))"
    using DToXY_step [OF j61 T b lt] by (simp only: d2xy.simps dd)
  also have "\<dots> = Some (wp (d2xy k d))"
    using Suc.hyps(2) jk by (intro Suc.hyps(1)) simp_all
  finally show ?case .
qed

lemma DToXY_d2xy:
  assumes "k \<le> 62" "d < 2 ^ 63"
  shows "DToXY (2 ^ k) (of_nat d) = Some (wp (d2xy k d))"
  using DToXY_loop_d2xy [OF assms, of 0] by (simp add: DToXY_def)

text \<open>
  The loop of \<open>XYToD\<close> reads only the bits of \<open>x\<close> and \<open>y\<close> below the current \<open>s\<close>, so the
  bits that the reflection \<open>s - 1 - x\<close> leaves above them do not matter. Its sum is the
  distance on the curve modulo \<open>2 ^ 64\<close>.
\<close>

lemma rot_unat_mod:
  assumes "j \<le> 62" "rx < 2" "ry < 2"
  shows "(unat (fst (rot (2 ^ j) (of_nat rx) (of_nat ry) (x, y))) mod 2 ^ j,
          unat (snd (rot (2 ^ j) (of_nat rx) (of_nat ry) (x, y))) mod 2 ^ j)
         = nrot (2 ^ j) rx ry (unat x mod 2 ^ j, unat y mod 2 ^ j)"
  using of_nat_bit_eq [OF assms(2)] of_nat_bit_eq [OF assms(3)]
  by (simp add: rot_def nrot_def Let_def unat_reflect [OF assms(1)])

lemma xy2d_rot:
  assumes "j \<le> 62" "rx < 2" "ry < 2"
  shows "xy2d j (unat (fst (rot (2 ^ j) (of_nat rx) (of_nat ry) (x, y))),
                 unat (snd (rot (2 ^ j) (of_nat rx) (of_nat ry) (x, y))))
         = xy2d j (nrot (2 ^ j) rx ry (unat x mod 2 ^ j, unat y mod 2 ^ j))"
  using xy2d_mod [of j "(unat (fst (rot (2 ^ j) (of_nat rx) (of_nat ry) (x, y))),
                 unat (snd (rot (2 ^ j) (of_nat rx) (of_nat ry) (x, y))))"]
  by (simp only: fst_conv snd_conv rot_unat_mod [OF assms])

lemma XYToD_step:
  assumes "j \<le> 62"
  shows "XYToD_loop (2 ^ j) x y d
         = XYToD_loop (go_div (2 ^ j) 2)
             (fst (rot (2 ^ j) (of_nat (hbit j (unat x))) (of_nat (hbit j (unat y))) (x, y)))
             (snd (rot (2 ^ j) (of_nat (hbit j (unat x))) (of_nat (hbit j (unat y))) (x, y)))
             (d + of_nat (4 ^ j * quad (hbit j (unat x)) (hbit j (unat y))))"
proof -
  have q: "(2 :: go_int) ^ j * 2 ^ j * ((3 * of_nat (hbit j (unat x))) XOR of_nat (hbit j (unat y)))
           = of_nat (4 ^ j * quad (hbit j (unat x)) (hbit j (unat y)))"
  proof -
    have "(2 :: go_int) ^ j * 2 ^ j = of_nat (4 ^ j)"
      by (simp flip: power_mult_distrib)
    then show ?thesis
      by (simp only: quad_of_nat [OF hbit_less2 hbit_less2] of_nat_mult)
  qed
  show ?thesis
    apply (subst XYToD_loop.simps)
    apply (simp only: sless_pow2 [OF assms] if_True Let_def bit_test [OF assms] q)
    done
qed

lemma XYToD_loop_0: "XYToD_loop 0 x y d = Some d"
  by (subst XYToD_loop.simps) simp

lemma go_div_pow2: "j \<le> 61 \<Longrightarrow> go_div (2 ^ Suc j) 2 = 2 ^ j"
  using go_div_2 [of "2 ^ Suc j"] pow2_small [of "Suc j"] by simp

lemma go_div_1: "go_div 1 2 = 0"
  using go_div_2 [of 1] by simp

lemma XYToD_loop_xy2d:
  "j \<le> 62 \<Longrightarrow>
   XYToD_loop (2 ^ j) x y d = Some (d + of_nat (xy2d (Suc j) (unat x, unat y)))"
proof (induction j arbitrary: x y d)
  case 0
  show ?case
    using XYToD_step [of 0 x y d] by (simp add: go_div_1 XYToD_loop_0)
next
  case (Suc j)
  let ?rx = "hbit (Suc j) (unat x)" and ?ry = "hbit (Suc j) (unat y)"
  let ?p = "rot (2 ^ Suc j) (of_nat ?rx) (of_nat ?ry) (x, y)"
  let ?d = "d + of_nat (4 ^ Suc j * quad ?rx ?ry)"
  from Suc.prems have j: "j \<le> 61" "j \<le> 62" by simp_all
  have "XYToD_loop (2 ^ Suc j) x y d = XYToD_loop (2 ^ j) (fst ?p) (snd ?p) ?d"
    using XYToD_step [OF Suc.prems, of x y d] by (simp only: go_div_pow2 [OF j(1)])
  also have "\<dots> = Some (?d + of_nat (xy2d (Suc j) (unat (fst ?p), unat (snd ?p))))"
    by (rule Suc.IH [OF j(2)])
  also have "xy2d (Suc j) (unat (fst ?p), unat (snd ?p))
             = xy2d (Suc j) (nrot (2 ^ Suc j) ?rx ?ry (unat x mod 2 ^ Suc j, unat y mod 2 ^ Suc j))"
    by (rule xy2d_rot [OF Suc.prems hbit_less2 hbit_less2])
  finally show ?case
    by (simp only: xy2d.simps(2) [where j = "Suc j"] fst_conv snd_conv of_nat_add add.assoc)
qed

lemma XYToD_xy2d:
  assumes "k \<le> 62"
  shows "XYToD (2 ^ k) x y = Some (of_nat (xy2d k (unat x, unat y)))"
proof (cases k)
  case 0
  then show ?thesis by (simp add: XYToD_def go_div_1 XYToD_loop_0)
next
  case (Suc j)
  with assms have j: "j \<le> 61" by simp
  then have "j \<le> 62" by simp
  then show ?thesis
    unfolding Suc XYToD_def go_div_pow2 [OF j] by (simp only: XYToD_loop_xy2d add_0)
qed

section \<open>Termination of the loops\<close>

lemma sint_go_div_2:
  assumes "0 <s (s :: go_int)"
  shows "0 \<le> sint (go_div s 2) \<and> sint (go_div s 2) < sint s"
proof -
  have p: "0 < sint s" using assms by (simp add: word_sless_alt)
  have u: "sint s < 2 ^ 63" using sint_lt [of s] by simp
  have e: "sint s sdiv 2 = sint s div 2"
    using p by (simp add: signed_divide_int_def)
  have "signed_take_bit 63 (sint s div 2) = sint s div 2"
    by (rule signed_take_bit_int_eq_self) (use p u in simp_all)
  then have "sint (go_div s 2) = sint s div 2"
    by (simp add: go_div_def e signed_of_int)
  then show ?thesis using p by simp
qed

lemma XYToD_loop_total: "\<exists>r. XYToD_loop s x y d = Some r"
proof (induction "nat (sint s)" arbitrary: s x y d rule: less_induct)
  case less
  show ?case
  proof (cases "0 <s s")
    case False
    then show ?thesis by (subst XYToD_loop.simps) simp
  next
    case True
    have "nat (sint (go_div s 2)) < nat (sint s)"
      using sint_go_div_2 [OF True] by simp
    then have "\<exists>r. XYToD_loop (go_div s 2) x' y' d' = Some r" for x' y' d'
      by (rule less.hyps)
    then show ?thesis
      by (subst XYToD_loop.simps) (simp only: True if_True Let_def)
  qed
qed

lemma sint_double:
  assumes "0 <s (s :: go_int)" "s <s n" "n \<le>s 2 ^ 62"
  shows "sint (s * 2) = 2 * sint s"
proof -
  have p: "0 < sint s" using assms(1) by (simp add: word_sless_alt)
  have "sint ((2 :: go_int) ^ 62) = 2 ^ 62"
    using sint_of_nat_small [of "2 ^ 62"] by simp
  then have "sint s < 2 ^ 62" using assms(2,3) by (simp add: word_sless_alt word_sle_eq)
  then have "signed_take_bit 63 (sint s * 2) = sint s * 2"
    using p by (intro signed_take_bit_int_eq_self) simp_all
  then show ?thesis by (simp add: sint_word_mult)
qed

lemma DToXY_loop_total:
  assumes "n \<le>s 2 ^ 62"
  shows "0 <s s \<Longrightarrow> \<exists>p. DToXY_loop n s x y t = Some p"
proof (induction "nat (sint n - sint s)" arbitrary: s x y t rule: less_induct)
  case less
  show ?case
  proof (cases "s <s n")
    case False
    then show ?thesis by (subst DToXY_loop.simps) simp
  next
    case True
    have d: "sint (s * 2) = 2 * sint s" using less.prems True assms by (rule sint_double)
    have p: "0 < sint s" using less.prems by (simp add: word_sless_alt)
    have lt: "sint s < sint n" using True by (simp add: word_sless_alt)
    have m: "nat (sint n - sint (s * 2)) < nat (sint n - sint s)"
      unfolding d using p lt by simp
    have pos: "0 <s s * 2" using p d by (simp add: word_sless_alt)
    have "\<exists>p. DToXY_loop n (s * 2) x' y' t' = Some p" for x' y' t'
      using m pos by (rule less.hyps)
    then show ?thesis
      by (subst DToXY_loop.simps) (simp only: True if_True Let_def)
  qed
qed

lemmas DToXY_loop_induct =
  DToXY_loop.raw_induct [where xa = "((((n, s), x), y), t)" and P = "\<lambda>n s x y t r. Q n s x y t r", simplified prod.case] for n s x y t Q

lemma DToXY_loop_stuck:
  assumes "DToXY_loop n s x y t = Some r"
  shows "\<not> (s = 0 \<and> 0 <s n)"
proof (rule DToXY_loop_induct [where Q = "\<lambda>n s x y t r. \<not> (s = 0 \<and> 0 <s n)", OF _ assms])
  fix f :: "go_int \<Rightarrow> go_int \<Rightarrow> go_int \<Rightarrow> go_int \<Rightarrow> go_int \<Rightarrow> (go_int \<times> go_int) option"
    and n s x y t r
  assume ih: "\<And>n s x y t r. f n s x y t = Some r \<Longrightarrow> \<not> (s = 0 \<and> 0 <s n)"
  assume eq: "(if s <s n
      then let rx = 1 AND go_div t 2; ry = 1 AND (t XOR rx);
               p = rot s rx ry (x, y); x' = fst p + s * rx;
               y' = snd p + s * ry
           in f n (s * 2) x' y' (go_div t 4)
      else Some (x, y)) = Some r"
  show "\<not> (s = 0 \<and> 0 <s n)"
  proof
    assume a: "s = 0 \<and> 0 <s n"
    with eq obtain x' y' t' where "f n 0 x' y' t' = Some r" by (simp add: Let_def)
    from ih [OF this] a show False by simp
  qed
qed

lemma DToXY_loop_zero: "0 <s n \<Longrightarrow> DToXY_loop n 0 x y t = None"
  using DToXY_loop_stuck [of n 0 x y t] by (cases "DToXY_loop n 0 x y t") auto

lemma sless_pow2_big:
  assumes "2 ^ 62 <s (n :: go_int)" "j \<le> 63"
  shows "2 ^ j <s n"
proof (cases "j = 63")
  case True
  have "sint ((2 :: go_int) ^ 63) \<le> sint n" using sint_ge [of n] by simp
  moreover have "sint ((2 :: go_int) ^ 63) \<noteq> sint n"
    using assms(1) by (auto simp: word_sless_alt)
  ultimately show ?thesis unfolding True by (simp add: word_sless_alt)
next
  case False
  with assms(2) have j: "j \<le> 62" by simp
  have "(2::nat) ^ j \<le> 2 ^ 62" using j by (intro power_increasing) simp_all
  then have "int ((2::nat) ^ j) \<le> int (2 ^ 62)" by (simp only: of_nat_le_iff)
  moreover have "sint ((2 :: go_int) ^ j) = int (2 ^ j)"
    unfolding pow2_of_nat by (rule sint_of_nat_small [OF pow2_small [OF j]])
  moreover have "sint ((2 :: go_int) ^ 62) = int (2 ^ 62)"
    unfolding pow2_of_nat by (rule sint_of_nat_small) simp
  ultimately show ?thesis using assms(1) by (simp only: word_sless_alt)
qed

lemma DToXY_loop_diverges:
  assumes "2 ^ 62 <s (n :: go_int)"
  shows "j \<le> 64 \<Longrightarrow> DToXY_loop n (2 ^ j) x y t = None"
proof (induction "64 - j" arbitrary: j x y t)
  case 0
  then have "j = 64" by simp
  moreover have "(2 :: go_int) ^ 64 = 0" by simp
  moreover have "0 <s n" using sless_pow2_big [OF assms, of 0] by (simp add: word_sless_alt)
  ultimately show ?case by (simp only: DToXY_loop_zero)
next
  case (Suc m)
  then have j: "j \<le> 63" and m: "m = 64 - Suc j" "Suc j \<le> 64" by simp_all
  have lt: "2 ^ j <s n" using assms j by (rule sless_pow2_big)
  have "DToXY_loop n (2 ^ Suc j) x' y' t' = None" for x' y' t'
    using m by (rule Suc.hyps(1))
  then have "DToXY_loop n (2 ^ j * 2) x' y' t' = None" for x' y' t'
    by (simp add: mult.commute)
  then show ?case
    by (subst DToXY_loop.simps) (simp only: lt if_True Let_def)
qed

lemma DToXY_diverges: "2 ^ 62 <s (n :: go_int) \<Longrightarrow> DToXY n d = None"
  using DToXY_loop_diverges [of n 0 0 0 d] by (simp add: DToXY_def)

lemma DToXY_total: "n \<le>s 2 ^ 62 \<Longrightarrow> \<exists>p. DToXY n d = Some p"
  unfolding DToXY_def by (rule DToXY_loop_total) (simp_all add: word_sless_alt)

lemma XYToD_total: "\<exists>r. XYToD n x y = Some r"
  unfolding XYToD_def by (rule XYToD_loop_total)

section \<open>Ranges\<close>

lemma nonneg_view:
  assumes "0 \<le>s (d :: go_int)"
  shows "d = of_nat (unat d) \<and> unat d < 2 ^ 63 \<and> sint d = int (unat d)"
proof -
  have p: "0 \<le> sint d" using assms by (simp add: word_sle_eq)
  have u: "sint d < 2 ^ 63" using sint_lt [of d] by simp
  have "take_bit 64 (sint d) = sint d"
    by (rule take_bit_int_eq_self) (use p u in simp_all)
  then have "uint d = sint d" using uint_sint [of d] by simp
  then have e: "sint d = int (unat d)" by (simp only: uint_nat [symmetric])
  then have "int (unat d) < int (2 ^ 63)" using u by simp
  then have "unat d < 2 ^ 63" by (simp only: of_nat_less_iff)
  then show ?thesis using e by simp
qed

lemma sint_pow2: "k \<le> 62 \<Longrightarrow> sint ((2 :: go_int) ^ k) = 2 ^ k"
  using sint_of_nat_small [OF pow2_small, of k] by simp

lemma cell_view:
  assumes "k \<le> 62" "0 \<le>s (x :: go_int)" "x <s 2 ^ k"
  shows "unat x < 2 ^ k"
proof -
  have "sint x = int (unat x)" using nonneg_view [OF assms(2)] by simp
  moreover have "sint x < 2 ^ k" using assms(1,3) by (simp add: word_sless_alt sint_pow2)
  ultimately have "int (unat x) < int (2 ^ k)" by simp
  then show ?thesis by (simp only: of_nat_less_iff)
qed

lemma pow2_le: "k \<le> m \<Longrightarrow> (2::nat) ^ k \<le> 2 ^ m"
  by (rule power_increasing) simp_all

lemma pow4_eq: "(4::nat) ^ k = 2 ^ (2 * k)"
  by (simp add: power_mult)

lemma sq_pow2: "((2::nat) ^ k)\<^sup>2 = 4 ^ k"
  by (simp add: power2_eq_square flip: power_mult_distrib)

lemma pow4_small: "k \<le> 31 \<Longrightarrow> (4::nat) ^ k \<le> 2 ^ 62"
  unfolding pow4_eq by (rule pow2_le) simp

lemma of_nat_cell:
  assumes "k \<le> 62" "X < 2 ^ k"
  shows "sint (of_nat X :: go_int) = int X \<and> unat (of_nat X :: go_int) = X
         \<and> 0 \<le>s (of_nat X :: go_int) \<and> (of_nat X :: go_int) <s 2 ^ k
         \<and> (of_nat X :: go_int) \<le>s 2 ^ k - 1"
proof -
  have s: "X < 2 ^ 63" using assms pow2_small [of k] by simp
  then have a: "sint (of_nat X :: go_int) = int X" by (rule sint_of_nat_small)
  have b: "unat (of_nat X :: go_int) = X" by (rule unat_of_nat_small) (use s in simp)
  have "(2::nat) ^ k - 1 < 2 ^ 63" using pow2_small [OF assms(1)] by simp
  then have "sint (of_nat (2 ^ k - 1) :: go_int) = int (2 ^ k - 1)" by (rule sint_of_nat_small)
  moreover have "(of_nat (2 ^ k - 1) :: go_int) = 2 ^ k - 1" by (simp add: of_nat_diff)
  moreover have "int (2 ^ k - 1) = 2 ^ k - 1" by (simp add: of_nat_diff)
  ultimately have c: "sint ((2 :: go_int) ^ k - 1) = 2 ^ k - 1" by (simp only:)
  show ?thesis
    using assms(2) by (simp add: a b c word_sle_eq word_sless_alt sint_pow2 [OF assms(1)])
qed

lemma roundtrip_cell:
  assumes "k \<le> 31" "0 \<le>s x" "x <s 2 ^ k" "0 \<le>s y" "y <s 2 ^ k"
  shows "XYToD (2 ^ k) x y = Some (of_nat (xy2d k (unat x, unat y)))
         \<and> DToXY (2 ^ k) (of_nat (xy2d k (unat x, unat y))) = Some (x, y)
         \<and> xy2d k (unat x, unat y) < 4 ^ k \<and> 4 ^ k \<le> (2::nat) ^ 62"
proof -
  let ?D = "xy2d k (unat x, unat y)"
  have k: "k \<le> 62" using assms(1) by simp
  have X: "unat x < 2 ^ k" using k assms(2,3) by (rule cell_view)
  have Y: "unat y < 2 ^ k" using k assms(4,5) by (rule cell_view)
  have b: "?D < 4 ^ k" by (rule xy2d_bound)
  have p: "(4::nat) ^ k \<le> 2 ^ 62" using assms(1) by (rule pow4_small)
  have D: "?D < 2 ^ 63" using b p by simp
  have "DToXY (2 ^ k) (of_nat ?D) = Some (wp (d2xy k ?D))" using k D by (rule DToXY_d2xy)
  also have "d2xy k ?D = (unat x, unat y)" using X Y by (intro d2xy_xy2d) simp_all
  finally have "DToXY (2 ^ k) (of_nat ?D) = Some (x, y)" by (simp add: wp_def)
  then show ?thesis using XYToD_xy2d [OF k, of x y] b p by simp
qed

lemma roundtrip_dist:
  assumes "k \<le> 62" "0 \<le>s d" "sint d < (2 ^ k)\<^sup>2"
  shows "DToXY (2 ^ k) d = Some (wp (d2xy k (unat d)))
         \<and> XYToD (2 ^ k) (of_nat (fst (d2xy k (unat d)))) (of_nat (snd (d2xy k (unat d)))) = Some d"
proof -
  let ?P = "d2xy k (unat d)"
  note v = nonneg_view [OF assms(2)]
  have "int (unat d) < int ((2 ^ k)\<^sup>2)" using assms(3) v by simp
  then have "unat d < (2 ^ k)\<^sup>2" by (simp only: of_nat_less_iff)
  then have b: "unat d < 4 ^ k" by (simp only: sq_pow2)
  have "DToXY (2 ^ k) (of_nat (unat d)) = Some (wp ?P)" using assms(1) v by (intro DToXY_d2xy) simp_all
  then have a: "DToXY (2 ^ k) d = Some (wp ?P)" by simp
  have c: "unat (of_nat (fst ?P) :: go_int) = fst ?P" "unat (of_nat (snd ?P) :: go_int) = snd ?P"
    using of_nat_cell [OF assms(1), of "fst ?P"] of_nat_cell [OF assms(1), of "snd ?P"] d2xy_bound [of k "unat d"]
    by simp_all
  have "XYToD (2 ^ k) (of_nat (fst ?P)) (of_nat (snd ?P)) = Some (of_nat (xy2d k ?P))"
    using XYToD_xy2d [OF assms(1), of "of_nat (fst ?P)" "of_nat (snd ?P)"] by (simp only: c prod.collapse)
  also have "xy2d k ?P = unat d" using b by (rule xy2d_d2xy)
  finally show ?thesis using a by simp
qed

lemma sq_pow2_int: "((2::int) ^ k)\<^sup>2 = int (4 ^ k)"
  by (simp add: power2_eq_square flip: power_mult_distrib)

lemma dist_view:
  assumes "k \<le> 31" "D < 4 ^ k"
  shows "0 \<le>s (of_nat D :: go_int) \<and> sint (of_nat D :: go_int) \<le> (2 ^ k)\<^sup>2 - 1
         \<and> unat (of_nat D :: go_int) = D"
proof -
  have "D < 2 ^ 62" using assms(2) pow4_small [OF assms(1)] by simp
  then have s: "D < 2 ^ 63" and s': "D < 2 ^ 64" by simp_all
  have a: "sint (of_nat D :: go_int) = int D" using s by (rule sint_of_nat_small)
  have b: "unat (of_nat D :: go_int) = D" using s' by (rule unat_of_nat_small)
  have "int D < int (4 ^ k)" using assms(2) by (simp only: of_nat_less_iff)
  then have "int D \<le> (2 ^ k)\<^sup>2 - 1" by (simp only: sq_pow2_int)
  then show ?thesis by (simp add: a b word_sle_eq)
qed

section \<open>The round trips\<close>

text \<open>
  Claim C1, as stated, at \<open>n = 2 ^ 32\<close>, \<open>x = 2 ^ 31\<close>, \<open>y = 0\<close>: the product \<open>s * s * 3\<close>
  of the first pass leaves the range of \<open>int\<close>, \<open>XYToD\<close> returns a negative distance,
  and \<open>DToXY\<close> maps that distance to the cell \<open>(2147483647, 1)\<close>, not back to \<open>(x, y)\<close>.
\<close>

theorem DToXY_XYToD_overflow_counterexample:
  "XYToD (2 ^ 32) (2 ^ 31) 0 = Some (- 1537228672809129302)
   \<and> DToXY (2 ^ 32) (- 1537228672809129302) = Some (2147483647, 1)
   \<and> (2147483647 :: go_int, 1 :: go_int) \<noteq> (2 ^ 31, 0)"
  by code_simp

text \<open>
  Claim C1, amended. For every \<open>n = 2 ^ k\<close> with \<open>k \<le> 31\<close>, so that \<open>n\<^sup>2\<close> fits Go's \<open>int\<close>,
  and every \<open>x\<close>, \<open>y\<close> in \<open>[0, n - 1]\<close>, \<open>XYToD\<close> returns a distance \<open>d\<close> and \<open>DToXY n d\<close>
  returns the pair \<open>(x, y)\<close>.
\<close>

theorem DToXY_XYToD_roundtrip:
  assumes "k \<le> 31" "0 \<le>s x" "x <s 2 ^ k" "0 \<le>s y" "y <s 2 ^ k"
  shows "\<exists>d. XYToD (2 ^ k) x y = Some d \<and> DToXY (2 ^ k) d = Some (x, y)"
  using roundtrip_cell [OF assms] by blast

text \<open>
  The round trip of claim C1 at \<open>n = 8\<close> and the cell \<open>(5, 6)\<close>.
\<close>

theorem DToXY_XYToD_roundtrip_witness:
  "(3::nat) \<le> 31 \<and> 0 \<le>s (5::go_int) \<and> (5::go_int) <s 2 ^ 3 \<and> 0 \<le>s (6::go_int) \<and> (6::go_int) <s 2 ^ 3
   \<and> (\<exists>d. XYToD (2 ^ 3) 5 6 = Some d \<and> DToXY (2 ^ 3) d = Some (5, 6))"
  using DToXY_XYToD_roundtrip [of 3 5 6] by (simp add: word_sle_eq word_sless_alt)

text \<open>
  Claim C2. For every \<open>n = 2 ^ k\<close> that Go's \<open>int\<close> holds (\<open>k \<le> 62\<close>) and every \<open>d\<close> in
  \<open>[0, n\<^sup>2 - 1]\<close>, \<open>DToXY\<close> returns a pair \<open>(x, y)\<close> and \<open>XYToD n x y\<close> returns \<open>d\<close>. The
  bound \<open>n\<^sup>2 - 1\<close> is the mathematical one; where \<open>n\<^sup>2\<close> exceeds the range of \<open>int\<close> the
  products \<open>s * s\<close> that wrap around are multiplied by the digit 0.
\<close>

theorem XYToD_DToXY_roundtrip:
  assumes "k \<le> 62" "0 \<le>s d" "sint d \<le> (2 ^ k)\<^sup>2 - 1"
  shows "\<exists>x y. DToXY (2 ^ k) d = Some (x, y) \<and> XYToD (2 ^ k) x y = Some d"
proof -
  from assms(3) have "sint d < (2 ^ k)\<^sup>2" by simp
  from roundtrip_dist [OF assms(1,2) this] show ?thesis by (simp add: wp_def)
qed

text \<open>
  The round trip of claim C2 at \<open>n = 4\<close> and \<open>d = 11\<close>.
\<close>

theorem XYToD_DToXY_roundtrip_witness:
  "(2::nat) \<le> 62 \<and> 0 \<le>s (11::go_int) \<and> sint (11::go_int) \<le> (2 ^ 2)\<^sup>2 - 1
   \<and> (\<exists>x y. DToXY (2 ^ 2) 11 = Some (x, y) \<and> XYToD (2 ^ 2) x y = Some 11)"
  using XYToD_DToXY_roundtrip [of 2 11] by (simp add: word_sle_eq word_sless_alt)

section \<open>The transform and the curve of order two\<close>

text \<open>
  Claim C7. For all inputs, \<open>rot\<close> leaves the pair unchanged when \<open>ry = 1\<close>; when
  \<open>ry = 0\<close> and \<open>rx = 1\<close> it replaces \<open>(x, y)\<close> by \<open>(n - 1 - x, n - 1 - y)\<close> and then
  swaps the two components; when \<open>ry = 0\<close> and \<open>rx = 0\<close> it only swaps them. The
  subtractions are those of Go's \<open>int\<close>.
\<close>

theorem rot_cases:
  "rot n rx 1 (x, y) = (x, y)
   \<and> rot n 1 0 (x, y) = (n - 1 - y, n - 1 - x)
   \<and> rot n 0 0 (x, y) = (y, x)"
  by (simp add: rot_def)

text \<open>
  Claim C3, as stated, at its second value: for \<open>n = 4\<close> the distance 1 is the cell
  \<open>(1, 0)\<close>, not the cell \<open>(0, 1)\<close>.
\<close>

theorem DToXY_4_1_counterexample:
  "DToXY 4 1 = Some (1, 0) \<and> DToXY 4 1 \<noteq> Some (0, 1)"
  by code_simp

text \<open>
  Claim C3, amended. For \<open>n = 4\<close> the first five cells of the curve are
  \<open>(0, 0)\<close>, \<open>(1, 0)\<close>, \<open>(1, 1)\<close>, \<open>(0, 1)\<close> and \<open>(0, 2)\<close>: the first quadrant is
  walked through \<open>(1, 0)\<close> first and left upwards.
\<close>

theorem DToXY_4_first_cells:
  "DToXY 4 0 = Some (0, 0)
   \<and> DToXY 4 1 = Some (1, 0)
   \<and> DToXY 4 2 = Some (1, 1)
   \<and> DToXY 4 3 = Some (0, 1)
   \<and> DToXY 4 4 = Some (0, 2)"
  by code_simp

section \<open>Bijection, locality and range\<close>

text \<open>
  Claim C4, as stated, at \<open>n = 2 ^ 32\<close>: the cell \<open>(n - 1, n - 1)\<close> is mapped to a negative
  distance, which is no element of \<open>{0, \<dots>, n\<^sup>2 - 1}\<close>.
\<close>

theorem XYToD_bijection_counterexample:
  "XYToD (2 ^ 32) (2 ^ 32 - 1) (2 ^ 32 - 1) = Some (- 6148914691236517206)
   \<and> (- 6148914691236517206 :: go_int) <s 0"
  by code_simp

text \<open>
  Claim C4, amended. For every \<open>n = 2 ^ k\<close> with \<open>k \<le> 31\<close>, the map \<open>(x, y) \<mapsto> XYToD n x y\<close>
  restricted to \<open>x\<close>, \<open>y\<close> in \<open>[0, n - 1]\<close> is a bijection onto \<open>{0, \<dots>, n\<^sup>2 - 1}\<close>: it is
  injective there and every distance of that range is attained.
\<close>

theorem XYToD_bijection:
  assumes "k \<le> 31"
  shows "bij_betw (\<lambda>(x, y). XYToD (2 ^ k) x y)
           ({x. 0 \<le>s x \<and> x <s 2 ^ k} \<times> {y. 0 \<le>s y \<and> y <s 2 ^ k})
           (Some ` {d. 0 \<le>s d \<and> sint d \<le> (2 ^ k)\<^sup>2 - 1})"
proof -
  let ?f = "\<lambda>(x, y). XYToD (2 ^ k) x y"
  let ?A = "{x :: go_int. 0 \<le>s x \<and> x <s 2 ^ k} \<times> {y :: go_int. 0 \<le>s y \<and> y <s 2 ^ k}"
  let ?B = "{d :: go_int. 0 \<le>s d \<and> sint d \<le> (2 ^ k)\<^sup>2 - 1}"
  have k: "k \<le> 62" using assms by simp
  have inj: "inj_on ?f ?A"
  proof (rule inj_on_inverseI)
    fix c assume "c \<in> ?A"
    then have c: "0 \<le>s fst c" "fst c <s 2 ^ k" "0 \<le>s snd c" "snd c <s 2 ^ k" by auto
    from roundtrip_cell [OF assms c]
    show "the (DToXY (2 ^ k) (the (?f c))) = c" by (simp add: case_prod_beta)
  qed
  have sub: "?f ` ?A \<subseteq> Some ` ?B"
  proof
    fix r assume "r \<in> ?f ` ?A"
    then obtain x y where c: "0 \<le>s x" "x <s 2 ^ k" "0 \<le>s y" "y <s 2 ^ k"
      and r: "r = XYToD (2 ^ k) x y" by auto
    from roundtrip_cell [OF assms c] dist_view [OF assms, of "xy2d k (unat x, unat y)"]
    show "r \<in> Some ` ?B" unfolding r by simp
  qed
  have sup: "Some ` ?B \<subseteq> ?f ` ?A"
  proof
    fix r assume "r \<in> Some ` ?B"
    then obtain d where d: "0 \<le>s d" "sint d \<le> (2 ^ k)\<^sup>2 - 1" and r: "r = Some d" by auto
    let ?P = "d2xy k (unat d)"
    from d(2) have "sint d < (2 ^ k)\<^sup>2" by simp
    from roundtrip_dist [OF k d(1) this]
    have e: "?f (of_nat (fst ?P), of_nat (snd ?P)) = Some d" by simp
    have "(of_nat (fst ?P), of_nat (snd ?P)) \<in> ?A"
      using of_nat_cell [OF k, of "fst ?P"] of_nat_cell [OF k, of "snd ?P"] d2xy_bound [of k "unat d"]
      by simp
    then show "r \<in> ?f ` ?A" unfolding r using e by (metis (no_types, lifting) image_eqI)
  qed
  show ?thesis unfolding bij_betw_def using inj sub sup by blast
qed

text \<open>
  The bijection of claim C4 at \<open>n = 2\<close>.
\<close>

theorem XYToD_bijection_witness:
  "(1::nat) \<le> 31
   \<and> bij_betw (\<lambda>(x, y). XYToD (2 ^ 1) x y)
           ({x. 0 \<le>s x \<and> x <s 2 ^ 1} \<times> {y. 0 \<le>s y \<and> y <s 2 ^ 1})
           (Some ` {d. 0 \<le>s d \<and> sint d \<le> (2 ^ 1)\<^sup>2 - 1})"
proof -
  have h: "(1::nat) \<le> 31" by simp
  show ?thesis using h XYToD_bijection [OF h] by blast
qed

text \<open>
  Claim C5. For every \<open>n = 2 ^ k\<close> (\<open>k \<le> 62\<close>) and every \<open>d\<close> in \<open>[0, n\<^sup>2 - 2]\<close>, the cells
  that \<open>DToXY\<close> returns for \<open>d\<close> and for \<open>d + 1\<close> are at Euclidean distance exactly 1.
  Both distances are values of Go's \<open>int\<close>, so \<open>d + 1\<close> stays below \<open>2 ^ 63\<close>.
\<close>

theorem DToXY_adjacent:
  assumes "k \<le> 62" "0 \<le>s d" "sint d + 1 < 2 ^ 63" "sint d + 1 \<le> (2 ^ k)\<^sup>2 - 1"
  shows "\<exists>x y x' y'. DToXY (2 ^ k) d = Some (x, y) \<and> DToXY (2 ^ k) (d + 1) = Some (x', y')
           \<and> (sint x' - sint x)\<^sup>2 + (sint y' - sint y)\<^sup>2 = 1"
proof -
  let ?D = "unat d"
  let ?P = "d2xy k ?D" and ?Q = "d2xy k (Suc ?D)"
  note v = nonneg_view [OF assms(2)]
  have "int (Suc ?D) < int (2 ^ 63)" using assms(3) v by simp
  then have S: "Suc ?D < 2 ^ 63" by (simp only: of_nat_less_iff)
  then have D: "?D < 2 ^ 63" by simp
  have "int (Suc ?D) < int (4 ^ k)" using assms(4) v by (simp only: sq_pow2_int)
  then have lt: "Suc ?D < 4 ^ k" by (simp only: of_nat_less_iff)
  have "DToXY (2 ^ k) (of_nat ?D) = Some (wp ?P)" using assms(1) D by (rule DToXY_d2xy)
  then have a: "DToXY (2 ^ k) d = Some (of_nat (fst ?P), of_nat (snd ?P))" by (simp add: wp_def)
  have "DToXY (2 ^ k) (of_nat (Suc ?D)) = Some (wp ?Q)" using assms(1) S by (rule DToXY_d2xy)
  then have b: "DToXY (2 ^ k) (d + 1) = Some (of_nat (fst ?Q), of_nat (snd ?Q))"
    by (simp add: wp_def add.commute)
  have s: "sint (of_nat (fst ?P) :: go_int) = int (fst ?P)" "sint (of_nat (snd ?P) :: go_int) = int (snd ?P)"
    "sint (of_nat (fst ?Q) :: go_int) = int (fst ?Q)" "sint (of_nat (snd ?Q) :: go_int) = int (snd ?Q)"
    using of_nat_cell [OF assms(1), of "fst ?P"] of_nat_cell [OF assms(1), of "snd ?P"]
      of_nat_cell [OF assms(1), of "fst ?Q"] of_nat_cell [OF assms(1), of "snd ?Q"]
      d2xy_bound [of k ?D] d2xy_bound [of k "Suc ?D"]
    by simp_all
  have "adjacent ?P ?Q" using lt by (rule d2xy_adjacent)
  then have "(int (fst ?Q) - int (fst ?P))\<^sup>2 + (int (snd ?Q) - int (snd ?P))\<^sup>2 = 1"
    by (rule adjacent_dist)
  then have c: "(sint (of_nat (fst ?Q) :: go_int) - sint (of_nat (fst ?P) :: go_int))\<^sup>2
      + (sint (of_nat (snd ?Q) :: go_int) - sint (of_nat (snd ?P) :: go_int))\<^sup>2 = 1"
    by (simp only: s)
  show ?thesis by (intro exI conjI) (rule a, rule b, rule c)
qed

text \<open>
  The step of claim C5 at \<open>n = 4\<close> from \<open>d = 7\<close> to \<open>d = 8\<close>, across a quadrant border.
\<close>

theorem DToXY_adjacent_witness:
  "(2::nat) \<le> 62 \<and> 0 \<le>s (7::go_int) \<and> sint (7::go_int) + 1 < 2 ^ 63
   \<and> sint (7::go_int) + 1 \<le> (2 ^ 2)\<^sup>2 - 1
   \<and> (\<exists>x y x' y'. DToXY (2 ^ 2) 7 = Some (x, y) \<and> DToXY (2 ^ 2) (7 + 1) = Some (x', y')
           \<and> (sint x' - sint x)\<^sup>2 + (sint y' - sint y)\<^sup>2 = 1)"
proof -
  have h: "(2::nat) \<le> 62" "0 \<le>s (7::go_int)" "sint (7::go_int) + 1 < 2 ^ 63"
    "sint (7::go_int) + 1 \<le> (2 ^ 2)\<^sup>2 - 1"
    by (simp_all add: word_sle_eq)
  show ?thesis using h DToXY_adjacent [OF h] by blast
qed

text \<open>
  Claim C6, as stated, at \<open>n = 2 ^ 32\<close>, \<open>x = n - 1\<close>, \<open>y = 0\<close>: the last cell of the curve
  has the distance \<open>2 ^ 64 - 1\<close>, which \<open>XYToD\<close> returns as \<open>- 1\<close>.
\<close>

theorem XYToD_range_counterexample:
  "XYToD (2 ^ 32) (2 ^ 32 - 1) 0 = Some (- 1) \<and> (- 1 :: go_int) <s 0"
  by code_simp

text \<open>
  Claim C6, amended. For every \<open>n = 2 ^ k\<close> with \<open>k \<le> 31\<close> and every \<open>x\<close>, \<open>y\<close> in
  \<open>[0, n - 1]\<close>, the distance \<open>d\<close> that \<open>XYToD\<close> returns satisfies \<open>0 \<le> d \<le> n\<^sup>2 - 1\<close>.
\<close>

theorem XYToD_range:
  assumes "k \<le> 31" "0 \<le>s x" "x <s 2 ^ k" "0 \<le>s y" "y <s 2 ^ k"
  shows "\<exists>d. XYToD (2 ^ k) x y = Some d \<and> 0 \<le>s d \<and> sint d \<le> (2 ^ k)\<^sup>2 - 1"
  using roundtrip_cell [OF assms] dist_view [OF assms(1), of "xy2d k (unat x, unat y)"] by blast

text \<open>
  The range of claim C6 at \<open>n = 4\<close> and the cell \<open>(3, 0)\<close>.
\<close>

theorem XYToD_range_witness:
  "(2::nat) \<le> 31 \<and> 0 \<le>s (3::go_int) \<and> (3::go_int) <s 2 ^ 2 \<and> 0 \<le>s (0::go_int) \<and> (0::go_int) <s 2 ^ 2
   \<and> (\<exists>d. XYToD (2 ^ 2) 3 0 = Some d \<and> 0 \<le>s d \<and> sint d \<le> (2 ^ 2)\<^sup>2 - 1)"
  using XYToD_range [of 2 3 0] by (simp add: word_sle_eq word_sless_alt)

section \<open>Totality and inputs outside the contract\<close>

text \<open>
  Claim C8, as stated, at \<open>n = 2 ^ 62 + 1\<close>, \<open>d = 0\<close>: \<open>s\<close> reaches \<open>2 ^ 62 < n\<close>, the next
  doubling wraps to \<open>- 2 ^ 63\<close> and the one after it to 0, and from then on \<open>s < n\<close> holds
  for ever: the call of \<open>DToXY\<close> does not return.
\<close>

theorem DToXY_diverges_counterexample: "DToXY (2 ^ 62 + 1) 0 = None"
proof -
  have "(2 :: go_int) ^ 62 <s 2 ^ 62 + 1" by (simp add: word_sless_alt)
  then show ?thesis by (rule DToXY_diverges)
qed

text \<open>
  Claim C8, amended. Every call of \<open>XYToD\<close> terminates, for all inputs \<open>n\<close>, \<open>x\<close>, \<open>y\<close>.
  A call of \<open>DToXY\<close> terminates, for all \<open>d\<close>, exactly when \<open>n \<le> 2 ^ 62\<close>; this covers
  every power of two, every \<open>n \<le> 0\<close> and every other \<open>n\<close> up to \<open>2 ^ 62\<close>.
\<close>

theorem loops_terminate:
  "(\<exists>r. XYToD n x y = Some r) \<and> ((\<exists>p. DToXY n d = Some p) \<longleftrightarrow> n \<le>s 2 ^ 62)"
proof -
  have "(\<exists>p. DToXY n d = Some p) \<longleftrightarrow> n \<le>s 2 ^ 62"
  proof (cases "n \<le>s 2 ^ 62")
    case True
    then show ?thesis using DToXY_total [of n d] by simp
  next
    case False
    then have "2 ^ 62 <s n" by (simp add: word_sless_alt word_sle_eq)
    then have "DToXY n d = None" by (rule DToXY_diverges)
    with False show ?thesis by simp
  qed
  then show ?thesis using XYToD_total [of n x y] by simp
qed

text \<open>
  Both loops of claim C8 at \<open>n = 6\<close>, which is no power of two, and negative
  coordinates and distance.
\<close>

theorem loops_terminate_witness:
  "(\<exists>r. XYToD 6 (- 3) 100 = Some r) \<and> (\<exists>p. DToXY 6 (- 7) = Some p) \<and> (6 :: go_int) \<le>s 2 ^ 62"
proof -
  have h: "(6 :: go_int) \<le>s 2 ^ 62" by (simp add: word_sle_eq)
  show ?thesis using h loops_terminate [of 6 "- 3" 100 "- 7"] by blast
qed

text \<open>
  Claim C9. For every \<open>n = 2 ^ k\<close> (\<open>0 \<le> k \<le> 62\<close>) and every \<open>d \<ge> 0\<close>, also \<open>d \<ge> n\<^sup>2\<close>, the
  pair \<open>(x, y)\<close> that \<open>DToXY\<close> returns satisfies \<open>0 \<le> x \<le> n - 1\<close> and \<open>0 \<le> y \<le> n - 1\<close>.
\<close>

theorem DToXY_in_grid:
  assumes "k \<le> 62" "0 \<le>s d"
  shows "\<exists>x y. DToXY (2 ^ k) d = Some (x, y)
           \<and> 0 \<le>s x \<and> x \<le>s 2 ^ k - 1 \<and> 0 \<le>s y \<and> y \<le>s 2 ^ k - 1"
proof -
  let ?P = "d2xy k (unat d)"
  note v = nonneg_view [OF assms(2)]
  have "DToXY (2 ^ k) (of_nat (unat d)) = Some (wp ?P)" using assms(1) v by (intro DToXY_d2xy) simp_all
  then have "DToXY (2 ^ k) d = Some (of_nat (fst ?P), of_nat (snd ?P))" by (simp add: wp_def)
  moreover have "fst ?P < 2 ^ k" "snd ?P < 2 ^ k" using d2xy_bound [of k "unat d"] by simp_all
  ultimately show ?thesis
    using of_nat_cell [OF assms(1), of "fst ?P"] of_nat_cell [OF assms(1), of "snd ?P"] by blast
qed

text \<open>
  The grid of claim C9 at \<open>n = 2\<close> and the distance \<open>1000\<close>, far outside \<open>[0, 3]\<close>.
\<close>

theorem DToXY_in_grid_witness:
  "(1::nat) \<le> 62 \<and> 0 \<le>s (1000::go_int)
   \<and> (\<exists>x y. DToXY (2 ^ 1) 1000 = Some (x, y)
           \<and> 0 \<le>s x \<and> x \<le>s 2 ^ 1 - 1 \<and> 0 \<le>s y \<and> y \<le>s 2 ^ 1 - 1)"
  using DToXY_in_grid [of 1 1000] by (simp add: word_sle_eq word_sless_alt)

text \<open>
  Claim C10. For every \<open>n = 2 ^ k\<close> (\<open>0 \<le> k \<le> 62\<close>) and every \<open>d \<ge> 0\<close>, \<open>DToXY n d\<close> returns,
  and returns what it returns for \<open>d mod n\<^sup>2\<close>.
\<close>

theorem DToXY_mod:
  assumes "k \<le> 62" "0 \<le>s d"
  shows "DToXY (2 ^ k) d = DToXY (2 ^ k) (word_of_int (sint d mod (2 ^ k)\<^sup>2))
         \<and> DToXY (2 ^ k) d \<noteq> None"
proof -
  let ?D = "unat d"
  note v = nonneg_view [OF assms(2)]
  have a: "DToXY (2 ^ k) (of_nat ?D) = Some (wp (d2xy k ?D))"
    using assms(1) v by (intro DToXY_d2xy) simp_all
  have "?D mod 4 ^ k \<le> ?D" by simp
  moreover have "?D < 2 ^ 63" using v by simp
  ultimately have "?D mod 4 ^ k < 2 ^ 63" by (rule le_less_trans)
  with assms(1) have "DToXY (2 ^ k) (of_nat (?D mod 4 ^ k)) = Some (wp (d2xy k (?D mod 4 ^ k)))"
    by (rule DToXY_d2xy)
  also have "d2xy k (?D mod 4 ^ k) = d2xy k ?D" by (rule d2xy_mod) simp
  finally have b: "DToXY (2 ^ k) (of_nat (?D mod 4 ^ k)) = Some (wp (d2xy k ?D))" .
  have "sint d mod (2 ^ k)\<^sup>2 = int (?D mod 4 ^ k)"
    using v by (simp only: sq_pow2_int of_nat_mod)
  then have "(word_of_int (sint d mod (2 ^ k)\<^sup>2) :: go_int) = of_nat (?D mod 4 ^ k)"
    by (simp only: of_int_of_nat_eq)
  then show ?thesis using a b by simp
qed

text \<open>
  The reduction of claim C10 at \<open>n = 2\<close> and \<open>d = 7\<close>, which is 3 modulo 4.
\<close>

theorem DToXY_mod_witness:
  "(1::nat) \<le> 62 \<and> 0 \<le>s (7::go_int)
   \<and> DToXY (2 ^ 1) 7 = DToXY (2 ^ 1) (word_of_int (sint (7::go_int) mod (2 ^ 1)\<^sup>2))
   \<and> DToXY (2 ^ 1) 7 \<noteq> None"
proof -
  have h: "(1::nat) \<le> 62" "0 \<le>s (7::go_int)" by (simp_all add: word_sle_eq)
  show ?thesis using h DToXY_mod [OF h] by blast
qed

end
